theory Spec2Isabelle
  imports Complex_Main "HOL-Library.Sublist" "HOL-Library.Multiset"
begin

section \<open>Documents and the Python operations the pipeline applies to them\<close>

text \<open>
  The two collections hold documents decoded into Python values. The values modelled are
  \<open>None\<close>, booleans, integers, strings, lists and dictionaries with string keys; a
  dictionary is an association list whose first binding of a key is the effective one.
  Floating-point numbers and the other BSON scalar types are outside the model, and a
  string is a sequence of code points below 256.
\<close>

datatype error = KeyError | TypeError | ValueError | IndexError | ZeroDivisionError | StoreFailure

datatype json =
    JNull
  | JBool bool
  | JInt int
  | JStr string
  | JList "json list"
  | JDict "(string \<times> json) list"

text \<open>\<open>v[k]\<close> for a string \<open>k\<close>: only a dictionary that has the key answers.\<close>

fun py_getitem :: "json \<Rightarrow> string \<Rightarrow> error + json" where
  "py_getitem (JDict kvs) k = (case map_of kvs k of None \<Rightarrow> Inl KeyError | Some v \<Rightarrow> Inr v)"
| "py_getitem JNull k = Inl TypeError"
| "py_getitem (JBool b) k = Inl TypeError"
| "py_getitem (JInt i) k = Inl TypeError"
| "py_getitem (JStr s) k = Inl TypeError"
| "py_getitem (JList vs) k = Inl TypeError"

text \<open>\<open>v[k1][k2]...\<close>, evaluated left to right; the first failing subscript raises.\<close>

fun py_path :: "json \<Rightarrow> string list \<Rightarrow> error + json" where
  "py_path v [] = Inr v"
| "py_path v (k # ks) = (case py_getitem v k of Inl e \<Rightarrow> Inl e | Inr w \<Rightarrow> py_path w ks)"

subsection \<open>The built-in \<open>int\<close>\<close>

definition is_space :: "char \<Rightarrow> bool" where
  "is_space c = ((of_char c :: nat) \<in> set [9, 10, 11, 12, 13, 28, 29, 30, 31, 32, 133, 160])"

definition is_digit :: "char \<Rightarrow> bool" where
  "is_digit c = (48 \<le> (of_char c :: nat) \<and> (of_char c :: nat) \<le> 57)"

definition digit_val :: "char \<Rightarrow> nat" where
  "digit_val c = of_char c - 48"

text \<open>Decimal digits after the first one; a single underscore may separate two digits.\<close>

fun py_digits :: "nat \<Rightarrow> string \<Rightarrow> nat option" where
  "py_digits acc [] = Some acc"
| "py_digits acc [c] = (if is_digit c then Some (10 * acc + digit_val c) else None)"
| "py_digits acc (c # d # cs) =
     (if is_digit c then py_digits (10 * acc + digit_val c) (d # cs)
      else if c = CHR ''_'' \<and> is_digit d then py_digits (10 * acc + digit_val d) cs
      else None)"

definition py_unsigned :: "string \<Rightarrow> nat option" where
  "py_unsigned s =
     (case s of [] \<Rightarrow> None
      | c # cs \<Rightarrow> if is_digit c then py_digits (digit_val c) cs else None)"

text \<open>
  \<open>int(s)\<close> for a string: surrounding white space is dropped, one sign is allowed, and
  anything else than decimal digits raises \<open>ValueError\<close>. The bound that recent
  interpreters put on the number of digits is not modelled.
\<close>

definition py_int_str :: "string \<Rightarrow> error + int" where
  "py_int_str s =
     (let t = rev (dropWhile is_space (rev (dropWhile is_space s))) in
      case t of
        [] \<Rightarrow> Inl ValueError
      | c # cs \<Rightarrow>
          if c = CHR ''-'' then
            (case py_unsigned cs of None \<Rightarrow> Inl ValueError | Some n \<Rightarrow> Inr (- int n))
          else if c = CHR ''+'' then
            (case py_unsigned cs of None \<Rightarrow> Inl ValueError | Some n \<Rightarrow> Inr (int n))
          else
            (case py_unsigned t of None \<Rightarrow> Inl ValueError | Some n \<Rightarrow> Inr (int n)))"

fun py_int :: "json \<Rightarrow> error + int" where
  "py_int (JInt i) = Inr i"
| "py_int (JBool b) = Inr (if b then 1 else 0)"
| "py_int (JStr s) = py_int_str s"
| "py_int JNull = Inl TypeError"
| "py_int (JList vs) = Inl TypeError"
| "py_int (JDict kvs) = Inl TypeError"

subsection \<open>Dictionaries keyed by document values\<close>

text \<open>
  A Python \<open>dict\<close> keeps its keys in insertion order and finds a key by hash and
  \<open>==\<close>. Lists and dictionaries have no hash; \<open>True\<close> and \<open>1\<close> (and \<open>False\<close> and
  \<open>0\<close>) are the same key.
\<close>

fun hashable :: "json \<Rightarrow> bool" where
  "hashable (JList vs) = False"
| "hashable (JDict kvs) = False"
| "hashable JNull = True"
| "hashable (JBool b) = True"
| "hashable (JInt i) = True"
| "hashable (JStr s) = True"

fun key_norm :: "json \<Rightarrow> json" where
  "key_norm (JBool b) = JInt (if b then 1 else 0)"
| "key_norm JNull = JNull"
| "key_norm (JInt i) = JInt i"
| "key_norm (JStr s) = JStr s"
| "key_norm (JList vs) = JList vs"
| "key_norm (JDict kvs) = JDict kvs"

definition py_eq :: "json \<Rightarrow> json \<Rightarrow> bool" where
  "py_eq a b = (key_norm a = key_norm b)"

type_synonym 'v pydict = "(json \<times> 'v) list"

fun dict_get :: "'v pydict \<Rightarrow> json \<Rightarrow> 'v option" where
  "dict_get [] k = None"
| "dict_get ((k', v) # d) k = (if py_eq k' k then Some v else dict_get d k)"

text \<open>\<open>k in d.keys()\<close>.\<close>

definition dict_contains :: "'v pydict \<Rightarrow> json \<Rightarrow> error + bool" where
  "dict_contains d k = (if hashable k then Inr (dict_get d k \<noteq> None) else Inl TypeError)"

text \<open>In-place change of the value stored under a key that is present.\<close>

fun dict_modify :: "('v \<Rightarrow> 'v) \<Rightarrow> json \<Rightarrow> 'v pydict \<Rightarrow> 'v pydict" where
  "dict_modify f k [] = []"
| "dict_modify f k ((k', v) # d) =
     (if py_eq k' k then (k', f v) # d else (k', v) # dict_modify f k d)"

text \<open>\<open>d[k] = v\<close>: a present key keeps its place, a new key goes to the end.\<close>

definition dict_set :: "'v pydict \<Rightarrow> json \<Rightarrow> 'v \<Rightarrow> 'v pydict" where
  "dict_set d k v = (case dict_get d k of None \<Rightarrow> d @ [(k, v)] | Some _ \<Rightarrow> dict_modify (\<lambda>_. v) k d)"

text \<open>\<open>xs[:n]\<close>: a negative \<open>n\<close> counts from the end.\<close>

definition py_slice_to :: "'a list \<Rightarrow> int \<Rightarrow> 'a list" where
  "py_slice_to xs n = (if 0 \<le> n then take (nat n) xs else take (length xs - nat (- n)) xs)"

section \<open>The catalog store\<close>

text \<open>
  The two collections are reached through one text search and one point query; what they
  answer is a parameter of the model. Either call may fail, for a reason of the store or
  of the driver (an integer that does not fit the wire format, say).
\<close>

record store =
  find_exhibits :: "string \<Rightarrow> error + json list"
  find_museum :: "int \<Rightarrow> error + json option"

text \<open>\<open>MuseumsService.get_by_id\<close>: the identifier is coerced by \<open>int\<close> before the query.\<close>

definition get_by_id :: "store \<Rightarrow> json \<Rightarrow> error + json option" where
  "get_by_id st ident = (case py_int ident of Inl e \<Rightarrow> Inl e | Inr n \<Rightarrow> find_museum st n)"

text \<open>\<open>ExhibitService.get_by_name\<close>, with the cursor read into a list.\<close>

definition get_by_name :: "store \<Rightarrow> string \<Rightarrow> error + json list" where
  "get_by_name st query = find_exhibits st query"

section \<open>Navigator\<close>

text \<open>The value stored per museum: the dictionary with the keys \<open>name\<close>, \<open>locale\<close> and \<open>exhibits\<close>.\<close>

record aggregate =
  m_name :: json
  m_locale :: json
  m_exhibits :: "json list"

subsection \<open>Joining exhibits to museums\<close>

text \<open>
  One pass of the loop over the exhibits. The state is the \<open>museums\<close> dictionary together
  with the list of identifiers that \<open>get_by_id\<close> has been called with so far; that list
  is returned also when the pass raises.
\<close>

definition join_step ::
  "store \<Rightarrow> json \<Rightarrow> json list \<times> aggregate pydict \<Rightarrow> json list \<times> (error + aggregate pydict)" where
  "join_step st exhibit s =
     (case s of (lg, museums) \<Rightarrow>
       (case py_path exhibit [''data'', ''museum'', ''code''] of
          Inl e \<Rightarrow> (lg, Inl e)
        | Inr museum_id \<Rightarrow>
           (case py_path exhibit [''data'', ''name''] of
              Inl e \<Rightarrow> (lg, Inl e)
            | Inr exhibit_name \<Rightarrow>
                if museum_id \<noteq> JNull \<and> exhibit_name \<noteq> JNull then
                  (case dict_contains museums museum_id of
                     Inl e \<Rightarrow> (lg, Inl e)
                   | Inr True \<Rightarrow>
                       (lg, Inr (dict_modify
                                   (\<lambda>m. m\<lparr>m_exhibits := m_exhibits m @ [exhibit_name]\<rparr>)
                                   museum_id museums))
                   | Inr False \<Rightarrow>
                       (case get_by_id st museum_id of
                          Inl e \<Rightarrow> (lg @ [museum_id], Inl e)
                        | Inr None \<Rightarrow> (lg @ [museum_id], Inr museums)
                        | Inr (Some museum) \<Rightarrow>
                           (case py_path museum [''data'', ''general'', ''locale'', ''name''] of
                              Inl e \<Rightarrow> (lg @ [museum_id], Inl e)
                            | Inr locale \<Rightarrow>
                               (case py_path museum [''data'', ''general'', ''name''] of
                                  Inl e \<Rightarrow> (lg @ [museum_id], Inl e)
                                | Inr query \<Rightarrow>
                                    if locale \<noteq> JNull \<and> query \<noteq> JNull then
                                      (lg @ [museum_id],
                                       Inr (dict_set museums museum_id
                                              \<lparr>m_name = query, m_locale = locale,
                                               m_exhibits = [exhibit_name]\<rparr>))
                                    else (lg @ [museum_id], Inr museums)))))
                else (lg, Inr museums))))"

fun join_loop ::
  "store \<Rightarrow> json list \<Rightarrow> json list \<times> aggregate pydict \<Rightarrow> json list \<times> (error + aggregate pydict)" where
  "join_loop st [] s = (fst s, Inr (snd s))"
| "join_loop st (exhibit # rest) s =
     (case join_step st exhibit s of
        (lg, Inl e) \<Rightarrow> (lg, Inl e)
      | (lg, Inr museums) \<Rightarrow> join_loop st rest (lg, museums))"

definition get_museums_with_locales_and_exhibits ::
  "store \<Rightarrow> string \<Rightarrow> json list \<times> (error + aggregate pydict)" where
  "get_museums_with_locales_and_exhibits st query =
     (case get_by_name st query of
        Inl e \<Rightarrow> ([], Inl e)
      | Inr exhibits \<Rightarrow> join_loop st exhibits ([], []))"

subsection \<open>The relevance filter\<close>

text \<open>
  \<open>border\<close> and \<open>select\<close> are rationals and the quotient and the product are exact. With
  the defaults \<open>0.04\<close> and \<open>0.8\<close> the double-precision evaluation of the source takes the
  same decisions as long as the lists have fewer than \<open>2^50\<close> elements.
\<close>

definition n_exhibits :: "aggregate \<Rightarrow> nat" where
  "n_exhibits m = length (m_exhibits m)"

definition filter_relevant_museums ::
  "aggregate pydict \<Rightarrow> rat \<Rightarrow> rat \<Rightarrow> error + aggregate list" where
  "filter_relevant_museums museums border select =
     (let res_museums = rev (sort_key n_exhibits (map snd museums)) in
      case res_museums of
        [] \<Rightarrow> Inl IndexError
      | m0 # _ \<Rightarrow>
          let max_exhibits = n_exhibits m0 in
          if max_exhibits = 0 then Inl ZeroDivisionError
          else
            let res_museums =
                  filter (\<lambda>m. of_nat (n_exhibits m) / of_nat max_exhibits \<ge> border) res_museums
            in Inr (py_slice_to res_museums \<lceil>of_nat (length res_museums) * select\<rceil>))"

subsection \<open>Grouping by location\<close>

text \<open>\<open>locales[museum['locale']].append(museum)\<close> on a \<open>defaultdict(list)\<close>.\<close>

definition locales_add :: "aggregate list pydict \<Rightarrow> aggregate \<Rightarrow> error + aggregate list pydict" where
  "locales_add locales museum =
     (let l = m_locale museum in
      if hashable l then
        Inr (case dict_get locales l of
               None \<Rightarrow> locales @ [(l, [museum])]
             | Some _ \<Rightarrow> dict_modify (\<lambda>ms. ms @ [museum]) l locales)
      else Inl TypeError)"

fun locales_loop :: "aggregate list \<Rightarrow> aggregate list pydict \<Rightarrow> error + aggregate list pydict" where
  "locales_loop [] locales = Inr locales"
| "locales_loop (museum # rest) locales =
     (case locales_add locales museum of
        Inl e \<Rightarrow> Inl e
      | Inr locales' \<Rightarrow> locales_loop rest locales')"

text \<open>Reading \<open>locales[l]\<close>: a missing key of a \<open>defaultdict(list)\<close> reads as the empty list.\<close>

definition dd_get :: "'a list pydict \<Rightarrow> json \<Rightarrow> 'a list" where
  "dd_get d k = (case dict_get d k of None \<Rightarrow> [] | Some v \<Rightarrow> v)"

text \<open>Lines 151 and 153 to 157 of the source: everything after the filter.\<close>

definition group_locales :: "aggregate list \<Rightarrow> int \<Rightarrow> error + (json \<times> aggregate list) list" where
  "group_locales museums limit =
     (case locales_loop museums [] of
        Inl e \<Rightarrow> Inl e
      | Inr locales \<Rightarrow>
          let sorted_locales = rev (sort_key (\<lambda>l. length (dd_get locales l)) (map fst locales));
              sorted_locales = py_slice_to sorted_locales (min limit (int (length sorted_locales)))
          in Inr (map (\<lambda>l. (l, dd_get locales l)) sorted_locales))"

definition get_sorted_locales ::
  "store \<Rightarrow> string \<Rightarrow> int \<Rightarrow> error + (json \<times> aggregate list) list" where
  "get_sorted_locales st query limit =
     (case snd (get_museums_with_locales_and_exhibits st query) of
        Inl e \<Rightarrow> Inl e
      | Inr joined \<Rightarrow>
          (case filter_relevant_museums joined (1 / 25) (4 / 5) of
             Inl e \<Rightarrow> Inl e
           | Inr museums \<Rightarrow> group_locales museums limit))"

section \<open>Notions of the specification\<close>

text \<open>
  The specification speaks of valid exhibits, of museums that resolve, and of the exhibit
  names of one museum. They are defined here in its words, next to the code they are
  compared with.
\<close>

text \<open>
  An exhibit is valid when its museum code and its name are both present and not null;
  the pair is then the code and the name.
\<close>

definition valid_exhibit :: "json \<Rightarrow> (json \<times> json) option" where
  "valid_exhibit e =
     (case py_path e [''data'', ''museum'', ''code''] of
        Inl err \<Rightarrow> None
      | Inr c \<Rightarrow>
         (case py_path e [''data'', ''name''] of
            Inl err \<Rightarrow> None
          | Inr n \<Rightarrow> if c \<noteq> JNull \<and> n \<noteq> JNull then Some (c, n) else None))"

definition valid_exhibits :: "json list \<Rightarrow> (json \<times> json) list" where
  "valid_exhibits es = List.map_filter valid_exhibit es"

text \<open>
  A museum document is complete when its display name and its location name are both
  present and not null; the pair is then the display name and the location name.
\<close>

definition museum_record :: "json \<Rightarrow> (json \<times> json) option" where
  "museum_record m =
     (case py_path m [''data'', ''general'', ''locale'', ''name''] of
        Inl err \<Rightarrow> None
      | Inr l \<Rightarrow>
         (case py_path m [''data'', ''general'', ''name''] of
            Inl err \<Rightarrow> None
          | Inr q \<Rightarrow> if l \<noteq> JNull \<and> q \<noteq> JNull then Some (q, l) else None))"

text \<open>An identifier resolves when its lookup finds a complete museum document.\<close>

definition resolved :: "store \<Rightarrow> json \<Rightarrow> (json \<times> json) option" where
  "resolved st c =
     (case get_by_id st c of
        Inl err \<Rightarrow> None
      | Inr None \<Rightarrow> None
      | Inr (Some m) \<Rightarrow> museum_record m)"

text \<open>The names of the valid exhibits of museum \<open>k\<close>, in the order of the search result.\<close>

definition names_for :: "json \<Rightarrow> json list \<Rightarrow> json list" where
  "names_for k es = map snd (filter (\<lambda>p. py_eq (fst p) k) (valid_exhibits es))"

text \<open>The aggregate the specification expects for museum \<open>k\<close> after the exhibits \<open>es\<close>.\<close>

definition agg_for :: "store \<Rightarrow> json list \<Rightarrow> json \<Rightarrow> aggregate option" where
  "agg_for st es k =
     (case resolved st k of
        None \<Rightarrow> None
      | Some (q, l) \<Rightarrow>
          if names_for k es = [] then None
          else Some \<lparr>m_name = q, m_locale = l, m_exhibits = names_for k es\<rparr>)"

text \<open>
  How often the join looks museum \<open>k\<close> up while it reads \<open>es\<close>: once if it resolves and
  has a valid exhibit, and once per valid exhibit if it does not resolve.
\<close>

definition lookups_for :: "store \<Rightarrow> json list \<Rightarrow> json \<Rightarrow> nat" where
  "lookups_for st es k =
     (case resolved st k of
        None \<Rightarrow> length (names_for k es)
      | Some _ \<Rightarrow> if names_for k es = [] then 0 else 1)"

text \<open>The invariant of the loop of the join, after the exhibits \<open>es\<close>.\<close>

definition join_inv :: "store \<Rightarrow> json list \<Rightarrow> json list \<Rightarrow> aggregate pydict \<Rightarrow> bool" where
  "join_inv st es lg ms \<longleftrightarrow>
     (\<forall>k. dict_get ms k = agg_for st es k) \<and>
     distinct (map (key_norm \<circ> fst) ms) \<and>
     (\<forall>k. length (filter (py_eq k) lg) = lookups_for st es k)"



text \<open>The museums of location \<open>l\<close>, in the order in which they arrive.\<close>

definition group_of :: "json \<Rightarrow> aggregate list \<Rightarrow> aggregate list" where
  "group_of l ms = filter (\<lambda>m. py_eq (m_locale m) l) ms"

text \<open>The position of the first museum of location \<open>l\<close> in the sequence.\<close>

definition first_seen :: "json \<Rightarrow> aggregate list \<Rightarrow> nat" where
  "first_seen l ms = length (takeWhile (\<lambda>m. \<not> py_eq (m_locale m) l) ms)"

text \<open>The invariant of the grouping loop, after the museums \<open>ms\<close>.\<close>

definition locales_inv :: "aggregate list \<Rightarrow> aggregate list pydict \<Rightarrow> bool" where
  "locales_inv ms locs \<longleftrightarrow>
     (\<forall>l. dict_get locs l = (if group_of l ms = [] then None else Some (group_of l ms))) \<and>
     distinct (map (key_norm \<circ> fst) locs) \<and>
     sorted_wrt (\<lambda>a b. first_seen a ms < first_seen b ms) (map fst locs)"

section \<open>Sample documents and stores\<close>

text \<open>Documents of the two collections with the fields the pipeline reads.\<close>

definition exhibit_doc :: "json \<Rightarrow> json \<Rightarrow> json" where
  "exhibit_doc c n = JDict [(''data'', JDict [(''museum'', JDict [(''code'', c)]), (''name'', n)])]"

definition museum_doc :: "json \<Rightarrow> json \<Rightarrow> json" where
  "museum_doc n l =
     JDict [(''data'',
       JDict [(''general'', JDict [(''name'', n), (''locale'', JDict [(''name'', l)])])])]"

text \<open>A store whose text search matches nothing.\<close>

definition empty_store :: store where
  "empty_store = \<lparr>find_exhibits = (\<lambda>q. Inr []), find_museum = (\<lambda>i. Inr None)\<rparr>"

text \<open>Scenario A of the specification: two exhibits of museum 1 and one of museum 2.\<close>

definition scenario_exhibits :: "json list" where
  "scenario_exhibits =
     [exhibit_doc (JInt 1) (JStr ''Vase''), exhibit_doc (JInt 1) (JStr ''Urn''),
      exhibit_doc (JInt 2) (JStr ''Coin'')]"

definition scenario_store :: store where
  "scenario_store =
     \<lparr>find_exhibits = (\<lambda>q. Inr scenario_exhibits),
      find_museum = (\<lambda>i. if i = 1 then Inr (Some (museum_doc (JStr ''M1'') (JStr ''CityA'')))
                         else if i = 2 then Inr (Some (museum_doc (JStr ''M2'') (JStr ''CityA'')))
                         else Inr None)\<rparr>"

text \<open>Two exhibits of a museum that the store does not have.\<close>

definition orphan_exhibits :: "json list" where
  "orphan_exhibits = [exhibit_doc (JInt 5) (JStr ''Amphora''), exhibit_doc (JInt 5) (JStr ''Lamp'')]"

definition orphan_store :: store where
  "orphan_store = \<lparr>find_exhibits = (\<lambda>q. Inr orphan_exhibits), find_museum = (\<lambda>i. Inr None)\<rparr>"

text \<open>A search result whose only exhibit has no \<open>code\<close> key.\<close>

definition no_code_store :: store where
  "no_code_store =
     \<lparr>find_exhibits =
        (\<lambda>q. Inr [JDict [(''data'', JDict [(''museum'', JDict []), (''name'', JStr ''Vase'')])]]),
      find_museum = (\<lambda>i. Inr None)\<rparr>"

text \<open>The scenario with an exhibit whose museum code is null in the middle.\<close>

definition null_code_store :: store where
  "null_code_store =
     scenario_store\<lparr>find_exhibits :=
       (\<lambda>q. Inr [exhibit_doc (JInt 1) (JStr ''Vase''), exhibit_doc JNull (JStr ''Bowl''),
                 exhibit_doc (JInt 2) (JStr ''Coin'')])\<rparr>"

text \<open>The scenario with a null location name for museum 2.\<close>

definition null_locale_store :: store where
  "null_locale_store =
     \<lparr>find_exhibits = (\<lambda>q. Inr scenario_exhibits),
      find_museum = (\<lambda>i. if i = 1 then Inr (Some (museum_doc (JStr ''M1'') (JStr ''CityA'')))
                         else if i = 2 then Inr (Some (museum_doc (JStr ''M2'') JNull))
                         else Inr None)\<rparr>"


text \<open>
  A store that agrees with the scenario on the query \<open>vase\<close> and on the museums 1 and 2
  only.
\<close>

definition other_store :: store where
  "other_store =
     \<lparr>find_exhibits = (\<lambda>q. if q = ''vase'' then Inr scenario_exhibits else Inl StoreFailure),
      find_museum = (\<lambda>i. if i = 1 then Inr (Some (museum_doc (JStr ''M1'') (JStr ''CityA'')))
                         else if i = 2 then Inr (Some (museum_doc (JStr ''M2'') (JStr ''CityA'')))
                         else if i = 3 then Inr (Some (museum_doc (JStr ''M3'') (JStr ''CityB'')))
                         else Inl StoreFailure)\<rparr>"




text \<open>Two museums in two cities with one matching exhibit each.\<close>

definition tie_m1 :: aggregate where
  "tie_m1 = \<lparr>m_name = JStr ''M1'', m_locale = JStr ''CityA'', m_exhibits = [JStr ''Vase'']\<rparr>"

definition tie_m2 :: aggregate where
  "tie_m2 = \<lparr>m_name = JStr ''M2'', m_locale = JStr ''CityB'', m_exhibits = [JStr ''Coin'']\<rparr>"

definition tie_store :: store where
  "tie_store =
     \<lparr>find_exhibits =
        (\<lambda>q. Inr [exhibit_doc (JInt 1) (JStr ''Vase''), exhibit_doc (JInt 2) (JStr ''Coin'')]),
      find_museum = (\<lambda>i. if i = 1 then Inr (Some (museum_doc (JStr ''M1'') (JStr ''CityA'')))
                         else if i = 2 then Inr (Some (museum_doc (JStr ''M2'') (JStr ''CityB'')))
                         else Inr None)\<rparr>"

section \<open>Properties of the join\<close>

lemma py_eq_refl [simp]: "py_eq a a"
  by (simp add: py_eq_def)

lemma py_eq_sym: "py_eq a b = py_eq b a"
  by (auto simp: py_eq_def)

lemma py_eq_trans: "py_eq a b \<Longrightarrow> py_eq b c \<Longrightarrow> py_eq a c"
  by (simp add: py_eq_def)

lemma py_eq_left_cong: "py_eq a b \<Longrightarrow> py_eq a c = py_eq b c"
  by (simp add: py_eq_def)

lemma py_eq_right_cong: "py_eq a b \<Longrightarrow> py_eq c a = py_eq c b"
  by (simp add: py_eq_def)

lemma py_eq_int: "py_eq a b \<Longrightarrow> py_int a = py_int b"
  by (cases a; cases b) (auto simp: py_eq_def split: if_splits)

lemma py_eq_hashable: "py_eq a b \<Longrightarrow> hashable a = hashable b"
  by (cases a; cases b) (auto simp: py_eq_def)

lemma py_eq_get_by_id: "py_eq a b \<Longrightarrow> get_by_id st a = get_by_id st b"
  by (simp add: get_by_id_def py_eq_int)

lemma py_eq_resolved: "py_eq a b \<Longrightarrow> resolved st a = resolved st b"
  by (simp add: resolved_def py_eq_get_by_id)

lemma dict_get_cong: "py_eq k k' \<Longrightarrow> dict_get d k = dict_get d k'"
  by (induction d) (auto simp: py_eq_def)

lemma dict_get_modify:
  "dict_get (dict_modify f k d) k' =
     (if py_eq k k' then map_option f (dict_get d k') else dict_get d k')"
  by (induction d) (auto simp: py_eq_def)

lemma keys_dict_modify [simp]: "map fst (dict_modify f k d) = map fst d"
  by (induction d) auto

lemma dict_get_append:
  "dict_get (d @ d') k = (case dict_get d k of None \<Rightarrow> dict_get d' k | Some v \<Rightarrow> Some v)"
  by (induction d) auto

lemma dict_get_None_iff: "dict_get d k = None \<longleftrightarrow> (\<forall>k' \<in> set (map fst d). \<not> py_eq k' k)"
  by (induction d) (auto split: if_splits)

lemma join_step_Inr:
  assumes "join_step st e (lg, ms) = (lg', Inr ms')"
  shows "(valid_exhibit e = None \<and> lg' = lg \<and> ms' = ms) \<or>
         (\<exists>c n. valid_exhibit e = Some (c, n) \<and> hashable c \<and>
            (case dict_get ms c of
               Some a \<Rightarrow> lg' = lg \<and>
                  ms' = dict_modify (\<lambda>m. m\<lparr>m_exhibits := m_exhibits m @ [n]\<rparr>) c ms
             | None \<Rightarrow> lg' = lg @ [c] \<and>
                  ms' = (case resolved st c of
                           None \<Rightarrow> ms
                         | Some (q, l) \<Rightarrow>
                             ms @ [(c, \<lparr>m_name = q, m_locale = l, m_exhibits = [n]\<rparr>)])))"
  using assms
  by (auto simp: join_step_def valid_exhibit_def dict_contains_def resolved_def museum_record_def
      dict_set_def simp del: py_path.simps
      split: sum.splits option.splits if_splits bool.splits)

lemma join_step_log:
  assumes "join_step st e (lg, ms) = (lg', r)"
  shows "lg' = lg \<or>
         (\<exists>c n. valid_exhibit e = Some (c, n) \<and> dict_get ms c = None \<and> lg' = lg @ [c] \<and>
            ((\<exists>err. r = Inl err) \<longrightarrow> resolved st c = None))"
  using assms
  by (auto simp: join_step_def valid_exhibit_def dict_contains_def resolved_def museum_record_def
      dict_set_def simp del: py_path.simps
      split: sum.splits option.splits if_splits bool.splits)

lemma join_loop_append:
  "join_loop st (xs @ ys) s =
     (case join_loop st xs s of
        (lg, Inl e) \<Rightarrow> (lg, Inl e)
      | (lg, Inr ms) \<Rightarrow> join_loop st ys (lg, ms))"
  by (induction xs arbitrary: s) (auto split: prod.splits sum.splits)

lemma valid_exhibits_snoc:
  "valid_exhibits (es @ [e]) =
     valid_exhibits es @ (case valid_exhibit e of None \<Rightarrow> [] | Some p \<Rightarrow> [p])"
  by (simp add: valid_exhibits_def List.map_filter_def split: option.splits)

lemma names_for_snoc_None: "valid_exhibit e = None \<Longrightarrow> names_for k (es @ [e]) = names_for k es"
  by (simp add: names_for_def valid_exhibits_snoc)

lemma names_for_snoc_Some:
  "valid_exhibit e = Some (c, n) \<Longrightarrow>
   names_for k (es @ [e]) = names_for k es @ (if py_eq c k then [n] else [])"
  by (simp add: names_for_def valid_exhibits_snoc)

lemma names_for_cong: "py_eq a b \<Longrightarrow> names_for a es = names_for b es"
  by (simp add: names_for_def py_eq_right_cong)

lemma agg_for_cong: "py_eq a b \<Longrightarrow> agg_for st es a = agg_for st es b"
  by (simp add: agg_for_def names_for_cong [of a b] py_eq_resolved [of a b]
      split: option.splits prod.splits if_splits)

lemma join_inv_Nil: "join_inv st [] [] []"
  by (simp add: join_inv_def agg_for_def lookups_for_def names_for_def valid_exhibits_def
      List.map_filter_def split: option.splits)

lemma join_inv_skip:
  assumes "join_inv st es lg ms" and "valid_exhibit e = None"
  shows "join_inv st (es @ [e]) lg ms"
  using assms
  by (simp add: join_inv_def agg_for_def lookups_for_def names_for_snoc_None split: option.splits prod.splits if_splits)

lemma join_inv_old:
  assumes inv: "join_inv st es lg ms" and v: "valid_exhibit e = Some (c, n)"
    and g: "dict_get ms c = Some a"
  shows "join_inv st (es @ [e]) lg
           (dict_modify (\<lambda>m. m\<lparr>m_exhibits := m_exhibits m @ [n]\<rparr>) c ms)"
proof -
  from inv have get: "\<And>k. dict_get ms k = agg_for st es k"
    and dist: "distinct (map (key_norm \<circ> fst) ms)"
    and cnt: "\<And>k. length (filter (py_eq k) lg) = lookups_for st es k"
    by (simp_all add: join_inv_def)
  have a: "\<And>k. py_eq c k \<Longrightarrow> agg_for st es k = Some a"
    using g get agg_for_cong by metis
  have 1: "dict_get (dict_modify (\<lambda>m. m\<lparr>m_exhibits := m_exhibits m @ [n]\<rparr>) c ms) k
             = agg_for st (es @ [e]) k" for k
  proof (cases "py_eq c k")
    case True
    from a [OF True] show ?thesis
      by (auto simp: dict_get_modify get True agg_for_def names_for_snoc_Some [OF v]
          split: option.splits if_splits)
  next
    case False
    then show ?thesis
      by (simp add: dict_get_modify get agg_for_def names_for_snoc_Some [OF v]
          split: option.splits prod.splits if_splits)
  qed
  have 2: "distinct (map (key_norm \<circ> fst)
             (dict_modify (\<lambda>m. m\<lparr>m_exhibits := m_exhibits m @ [n]\<rparr>) c ms))"
    using dist keys_dict_modify [of _ c ms] by (metis map_map)
  have 3: "length (filter (py_eq k) lg) = lookups_for st (es @ [e]) k" for k
  proof (cases "py_eq c k")
    case True
    from a [OF True] show ?thesis
      by (auto simp: cnt lookups_for_def True agg_for_def names_for_snoc_Some [OF v]
          split: option.splits if_splits)
  next
    case False
    then show ?thesis
      by (simp add: cnt lookups_for_def names_for_snoc_Some [OF v] split: option.splits prod.splits if_splits)
  qed
  from 1 2 3 show ?thesis by (simp add: join_inv_def)
qed

lemma join_inv_new:
  assumes inv: "join_inv st es lg ms" and v: "valid_exhibit e = Some (c, n)"
    and g: "dict_get ms c = None"
  shows "join_inv st (es @ [e]) (lg @ [c])
           (case resolved st c of
              None \<Rightarrow> ms
            | Some (q, l) \<Rightarrow> ms @ [(c, \<lparr>m_name = q, m_locale = l, m_exhibits = [n]\<rparr>)])"
proof -
  from inv have get: "\<And>k. dict_get ms k = agg_for st es k"
    and dist: "distinct (map (key_norm \<circ> fst) ms)"
    and cnt: "\<And>k. length (filter (py_eq k) lg) = lookups_for st es k"
    by (simp_all add: join_inv_def)
  have a: "\<And>k. py_eq c k \<Longrightarrow> agg_for st es k = None"
    using g get agg_for_cong by metis
  have r: "\<And>k. py_eq c k \<Longrightarrow> resolved st k = resolved st c"
    using py_eq_resolved by metis
  show ?thesis
  proof (cases "resolved st c")
    case None
    have 1: "dict_get ms k = agg_for st (es @ [e]) k" for k
    proof (cases "py_eq c k")
      case True
      with r None show ?thesis using a [OF True] by (simp add: get agg_for_def)
    next
      case False
      then show ?thesis
        by (simp add: get agg_for_def names_for_snoc_Some [OF v] split: option.splits prod.splits if_splits)
    qed
    have 3: "length (filter (py_eq k) (lg @ [c])) = lookups_for st (es @ [e]) k" for k
    proof (cases "py_eq c k")
      case True
      with r None show ?thesis
        by (simp add: cnt lookups_for_def names_for_snoc_Some [OF v] py_eq_sym [of k c]
            split: option.splits prod.splits if_splits)
    next
      case False
      then show ?thesis
        by (simp add: cnt lookups_for_def names_for_snoc_Some [OF v] py_eq_sym [of k c]
            split: option.splits prod.splits if_splits)
    qed
    from 1 dist 3 None show ?thesis by (simp add: join_inv_def)
  next
    case (Some ql)
    obtain q l where ql: "ql = (q, l)" by (cases ql)
    have empty: "names_for k es = []" if "py_eq c k" for k
      using a [OF that] r [OF that] Some by (auto simp: agg_for_def ql split: if_splits)
    have 1: "dict_get (ms @ [(c, \<lparr>m_name = q, m_locale = l, m_exhibits = [n]\<rparr>)]) k
               = agg_for st (es @ [e]) k" for k
    proof (cases "py_eq c k")
      case True
      with r Some ql empty [OF True] a [OF True] show ?thesis
        by (simp add: dict_get_append get agg_for_def names_for_snoc_Some [OF v])
    next
      case False
      then show ?thesis
        by (simp add: dict_get_append get agg_for_def names_for_snoc_Some [OF v]
            split: option.splits prod.splits if_splits)
    qed
    have "key_norm c \<notin> (key_norm \<circ> fst) ` set ms"
      using g by (auto simp: dict_get_None_iff py_eq_def)
    with dist have 2: "distinct (map (key_norm \<circ> fst)
        (ms @ [(c, \<lparr>m_name = q, m_locale = l, m_exhibits = [n]\<rparr>)]))"
      by simp
    have 3: "length (filter (py_eq k) (lg @ [c])) = lookups_for st (es @ [e]) k" for k
    proof (cases "py_eq c k")
      case True
      with r Some ql empty [OF True] show ?thesis
        by (simp add: cnt lookups_for_def names_for_snoc_Some [OF v] py_eq_sym [of k c]
            split: option.splits prod.splits if_splits)
    next
      case False
      then show ?thesis
        by (simp add: cnt lookups_for_def names_for_snoc_Some [OF v] py_eq_sym [of k c]
            split: option.splits prod.splits if_splits)
    qed
    from 1 2 3 Some ql show ?thesis by (simp add: join_inv_def)
  qed
qed

lemma join_step_inv:
  assumes inv: "join_inv st es lg ms" and step: "join_step st e (lg, ms) = (lg', Inr ms')"
  shows "join_inv st (es @ [e]) lg' ms'"
proof (cases "valid_exhibit e")
  case None
  with join_step_Inr [OF step] inv show ?thesis by (simp add: join_inv_skip)
next
  case (Some p)
  obtain c n where p: "p = (c, n)" by (cases p)
  note v = Some [unfolded p]
  show ?thesis
  proof (cases "dict_get ms c")
    case None
    with join_step_Inr [OF step] v join_inv_new [OF inv v None] show ?thesis by simp
  next
    case (Some a)
    with join_step_Inr [OF step] v join_inv_old [OF inv v Some] show ?thesis by simp
  qed
qed

lemma join_loop_inv:
  "join_loop st es ([], []) = (lg, Inr ms) \<Longrightarrow> join_inv st es lg ms"
proof (induction es arbitrary: lg ms rule: rev_induct)
  case Nil
  then show ?case by (simp add: join_inv_Nil)
next
  case (snoc e es)
  from snoc.prems obtain lg1 ms1 where
    1: "join_loop st es ([], []) = (lg1, Inr ms1)" and
    2: "join_step st e (lg1, ms1) = (lg, Inr ms)"
    by (auto simp: join_loop_append split: prod.splits sum.splits)
  from join_step_inv [OF snoc.IH [OF 1] 2] show ?case .
qed

lemma dict_get_member:
  "distinct (map (key_norm \<circ> fst) d) \<Longrightarrow> (k, a) \<in> set d \<Longrightarrow> dict_get d k = Some a"
proof (induction d)
  case Nil
  then show ?case by simp
next
  case (Cons p d)
  obtain k0 v0 where p: "p = (k0, v0)" by (cases p)
  show ?case
  proof (cases "(k, a) = p")
    case True
    with p show ?thesis by simp
  next
    case False
    with Cons.prems have mem: "(k, a) \<in> set d" by simp
    then have "key_norm k \<in> (key_norm \<circ> fst) ` set d" by force
    moreover from Cons.prems p have "key_norm k0 \<notin> (key_norm \<circ> fst) ` set d" by simp
    ultimately have "\<not> py_eq k0 k" unfolding py_eq_def by metis
    with Cons.IH Cons.prems mem p show ?thesis by simp
  qed
qed

lemma names_for_empty_iff:
  "names_for k es \<noteq> [] \<longleftrightarrow> (\<exists>p \<in> set (valid_exhibits es). py_eq (fst p) k)"
  by (auto simp: names_for_def filter_empty_conv)

lemma join_loop_bounds:
  "join_loop st es ([], []) = (lg, r) \<Longrightarrow>
     (\<forall>k. resolved st k \<noteq> None \<longrightarrow> length (filter (py_eq k) lg) \<le> 1) \<and>
     length lg \<le> length (valid_exhibits es)"
proof (induction es arbitrary: lg r rule: rev_induct)
  case Nil
  then show ?case by auto
next
  case (snoc e es)
  obtain lg1 r1 where 1: "join_loop st es ([], []) = (lg1, r1)"
    by (cases "join_loop st es ([], [])")
  note IH = snoc.IH [OF 1]
  have mono: "length (valid_exhibits es) \<le> length (valid_exhibits (es @ [e]))"
    by (simp add: valid_exhibits_snoc)
  show ?case
  proof (cases r1)
    case (Inl err)
    with 1 snoc.prems have "lg = lg1" by (simp add: join_loop_append)
    with IH mono show ?thesis by auto
  next
    case (Inr ms1)
    with 1 snoc.prems have step: "join_step st e (lg1, ms1) = (lg, r)"
      by (auto simp: join_loop_append split: prod.splits sum.splits)
    from 1 Inr have inv: "join_inv st es lg1 ms1" by (simp add: join_loop_inv)
    from join_step_log [OF step] show ?thesis
    proof
      assume "lg = lg1"
      with IH mono show ?thesis by auto
    next
      assume "\<exists>c n. valid_exhibit e = Some (c, n) \<and> dict_get ms1 c = None \<and> lg = lg1 @ [c] \<and>
        ((\<exists>err. r = Inl err) \<longrightarrow> resolved st c = None)"
      then obtain c n where v: "valid_exhibit e = Some (c, n)" and g: "dict_get ms1 c = None"
        and lg: "lg = lg1 @ [c]" by blast
      have "length (filter (py_eq k) lg) \<le> 1" if res: "resolved st k \<noteq> None" for k
      proof (cases "py_eq k c")
        case True
        then have "dict_get ms1 k = None" using g dict_get_cong by metis
        with inv have "agg_for st es k = None" by (simp add: join_inv_def)
        with res have "names_for k es = []" by (auto simp: agg_for_def split: if_splits)
        with inv res have "length (filter (py_eq k) lg1) = 0"
          by (auto simp: join_inv_def lookups_for_def)
        with lg show ?thesis by simp
      next
        case False
        with IH res lg show ?thesis by simp
      qed
      moreover have "length lg \<le> length (valid_exhibits (es @ [e]))"
        using IH lg v by (simp add: valid_exhibits_snoc)
      ultimately show ?thesis by blast
    qed
  qed
qed

lemma join_step_skip:
  assumes "py_path e [''data'', ''museum'', ''code''] = Inr c"
    and "py_path e [''data'', ''name''] = Inr n"
    and "c = JNull \<or> n = JNull"
  shows "join_step st e s = (fst s, Inr (snd s))"
  using assms by (auto simp: join_step_def simp del: py_path.simps split: prod.splits)

lemma join_loop_skip:
  assumes "join_step st e = (\<lambda>s. (fst s, Inr (snd s)))"
  shows "join_loop st (pre @ e # post) s = join_loop st (pre @ post) s"
  by (induction pre arbitrary: s) (auto simp: assms split: prod.splits sum.splits)

lemma join_loop_store_cong:
  assumes "\<And>e s. e \<in> set es \<Longrightarrow> join_step st e s = join_step st' e s"
  shows "join_loop st es s = join_loop st' es s"
  using assms by (induction es arbitrary: s) (auto split: prod.splits sum.splits)

lemma join_step_store_eq:
  assumes "\<And>c. py_path e [''data'', ''museum'', ''code''] = Inr c \<Longrightarrow>
             get_by_id st c = get_by_id st' c"
  shows "join_step st e s = join_step st' e s"
proof (cases "py_path e [''data'', ''museum'', ''code'']")
  case (Inl err)
  then show ?thesis by (simp add: join_step_def del: py_path.simps split: prod.splits)
next
  case (Inr c)
  with assms have "get_by_id st c = get_by_id st' c" by simp
  with Inr show ?thesis
    by (simp add: join_step_def del: py_path.simps
        split: prod.splits sum.splits bool.splits option.splits)
qed

lemma join_step_incomplete:
  assumes "find_museum st i = Inr (Some m)"
    and "py_path m [''data'', ''general'', ''locale'', ''name''] = Inr l"
    and "py_path m [''data'', ''general'', ''name''] = Inr q"
    and "l = JNull \<or> q = JNull"
  shows "join_step st e s = join_step (st\<lparr>find_museum := (find_museum st)(i := Inr None)\<rparr>) e s"
proof (cases "py_path e [''data'', ''museum'', ''code'']")
  case (Inl err)
  then show ?thesis by (simp add: join_step_def del: py_path.simps split: prod.splits)
next
  case (Inr c)
  show ?thesis
  proof (cases "py_int c = Inr i")
    case True
    with assms have 1: "get_by_id st c = Inr (Some m)"
      and 2: "get_by_id (st\<lparr>find_museum := (find_museum st)(i := Inr None)\<rparr>) c = Inr None"
      by (simp_all add: get_by_id_def)
    from assms Inr show ?thesis
      by (auto simp: join_step_def 1 2 simp del: py_path.simps
          split: prod.splits sum.splits bool.splits)
  next
    case False
    then have "get_by_id st c = get_by_id (st\<lparr>find_museum := (find_museum st)(i := Inr None)\<rparr>) c"
      by (auto simp: get_by_id_def split: sum.splits)
    with Inr show ?thesis
      by (simp add: join_step_def del: py_path.simps
          split: prod.splits sum.splits bool.splits option.splits)
  qed
qed


text \<open>The join on the sample stores.\<close>

lemma orphan_run:
  "get_museums_with_locales_and_exhibits orphan_store ''amphora'' = ([JInt 5, JInt 5], Inr [])"
  by code_simp

lemma scenario_run:
  "get_museums_with_locales_and_exhibits scenario_store ''vase'' =
     ([JInt 1, JInt 2],
      Inr [(JInt 1, \<lparr>m_name = JStr ''M1'', m_locale = JStr ''CityA'',
                      m_exhibits = [JStr ''Vase'', JStr ''Urn'']\<rparr>),
           (JInt 2, \<lparr>m_name = JStr ''M2'', m_locale = JStr ''CityA'',
                      m_exhibits = [JStr ''Coin'']\<rparr>)])"
  by code_simp

section \<open>Properties of the relevance filter\<close>

text \<open>
  \<open>sort_key\<close> is a stable sort into ascending order of the key, as \<open>sorted\<close> with a
  \<open>key\<close> is; the stable sorted arrangement of a list is unique.
\<close>

lemma py_slice_to_take: "\<exists>j. py_slice_to xs n = take j xs"
  by (auto simp: py_slice_to_def)

lemma filter_count_desc:
  "filter (\<lambda>m. f m = c) (rev (sort_key f xs)) = rev (filter (\<lambda>m. f m = c) xs)"
  by (simp add: sort_key_stable flip: rev_filter)


lemma filter_relevant_Inr:
  assumes "filter_relevant_museums museums border select = Inr out"
  shows "\<exists>j m0 rest. rev (sort_key n_exhibits (map snd museums)) = m0 # rest \<and> 0 < n_exhibits m0 \<and>
           out = take j (filter (\<lambda>m. border \<le> of_nat (n_exhibits m) / of_nat (n_exhibits m0))
                          (rev (sort_key n_exhibits (map snd museums))))"
proof -
  obtain m0 rest where d: "rev (sort_key n_exhibits (map snd museums)) = m0 # rest"
    using assms by (cases "rev (sort_key n_exhibits (map snd museums))")
      (auto simp: filter_relevant_museums_def)
  with assms have pos: "0 < n_exhibits m0"
    by (auto simp: filter_relevant_museums_def Let_def split: if_splits)
  obtain j where "py_slice_to (filter (\<lambda>m. border \<le> of_nat (n_exhibits m) / of_nat (n_exhibits m0))
                          (rev (sort_key n_exhibits (map snd museums))))
        \<lceil>of_nat (length (filter (\<lambda>m. border \<le> of_nat (n_exhibits m) / of_nat (n_exhibits m0))
                          (rev (sort_key n_exhibits (map snd museums))))) * select\<rceil> =
      take j (filter (\<lambda>m. border \<le> of_nat (n_exhibits m) / of_nat (n_exhibits m0))
                          (rev (sort_key n_exhibits (map snd museums))))"
    using py_slice_to_take by blast
  with assms d pos show ?thesis
    by (auto simp: filter_relevant_museums_def Let_def split: if_splits)
qed



text \<open>The filter on the samples.\<close>

lemma tie_join:
  "get_museums_with_locales_and_exhibits tie_store ''vase'' =
     ([JInt 1, JInt 2], Inr [(JInt 1, tie_m1), (JInt 2, tie_m2)])"
  by code_simp

lemma tie_filter:
  "filter_relevant_museums [(JInt 1, tie_m1), (JInt 2, tie_m2)] (1 / 25) (4 / 5) = Inr [tie_m2, tie_m1]"
  by code_simp


section \<open>Properties of the grouping\<close>

lemma locales_loop_append:
  "locales_loop (xs @ ys) locs =
     (case locales_loop xs locs of Inl e \<Rightarrow> Inl e | Inr locs' \<Rightarrow> locales_loop ys locs')"
  by (induction xs arbitrary: locs) (auto split: sum.splits)

lemma group_of_snoc:
  "group_of l (ms @ [m]) = group_of l ms @ (if py_eq (m_locale m) l then [m] else [])"
  by (simp add: group_of_def)

lemma group_of_cong: "py_eq a b \<Longrightarrow> group_of a ms = group_of b ms"
  by (simp add: group_of_def py_eq_right_cong)

lemma length_takeWhile_lt: "x \<in> set xs \<Longrightarrow> \<not> P x \<Longrightarrow> length (takeWhile P xs) < length xs"
  by (induction xs) auto

lemma first_seen_old:
  "group_of l ms \<noteq> [] \<Longrightarrow> first_seen l (ms @ [m]) = first_seen l ms \<and> first_seen l ms < length ms"
proof -
  assume "group_of l ms \<noteq> []"
  then obtain x where x: "x \<in> set ms" "py_eq (m_locale x) l"
    by (auto simp: group_of_def filter_empty_conv)
  then have "takeWhile (\<lambda>m. \<not> py_eq (m_locale m) l) (ms @ [m]) =
             takeWhile (\<lambda>m. \<not> py_eq (m_locale m) l) ms"
    by (intro takeWhile_append1 [of x]) auto
  moreover have "length (takeWhile (\<lambda>m. \<not> py_eq (m_locale m) l) ms) < length ms"
    using x by (intro length_takeWhile_lt [of x]) auto
  ultimately show ?thesis by (simp add: first_seen_def)
qed

lemma first_seen_new:
  "group_of l ms = [] \<Longrightarrow> py_eq (m_locale m) l \<Longrightarrow> first_seen l (ms @ [m]) = length ms"
  by (auto simp: first_seen_def group_of_def filter_empty_conv)

lemma key_has_group:
  assumes "locales_inv ms locs" and "k \<in> set (map fst locs)"
  shows "group_of k ms \<noteq> []"
proof -
  from assms(2) have "dict_get locs k \<noteq> None"
    by (auto simp: dict_get_None_iff intro: bexI [of _ "(k, _)"])
  with assms(1) show ?thesis by (auto simp: locales_inv_def split: if_splits)
qed

lemma locales_add_inv:
  assumes inv: "locales_inv ms locs" and add: "locales_add locs m = Inr locs'"
  shows "locales_inv (ms @ [m]) locs'"
proof -
  let ?l0 = "m_locale m"
  from inv have get: "\<And>l. dict_get locs l = (if group_of l ms = [] then None else Some (group_of l ms))"
    and dist: "distinct (map (key_norm \<circ> fst) locs)"
    and srt: "sorted_wrt (\<lambda>a b. first_seen a ms < first_seen b ms) (map fst locs)"
    by (simp_all add: locales_inv_def)
  have old: "first_seen k (ms @ [m]) = first_seen k ms \<and> first_seen k ms < length ms"
    if "k \<in> set (map fst locs)" for k
    using first_seen_old [OF key_has_group [OF inv that]] .
  have srt': "sorted_wrt (\<lambda>a b. first_seen a (ms @ [m]) < first_seen b (ms @ [m])) (map fst locs)"
    using srt old by (auto elim!: sorted_wrt_mono_rel [rotated])
  show ?thesis
  proof (cases "dict_get locs ?l0")
    case None
    with add have locs': "locs' = locs @ [(?l0, [m])]"
      by (auto simp: locales_add_def Let_def split: if_splits)
    from None get [of ?l0] have empty: "group_of ?l0 ms = []" by (auto split: if_splits)
    have 1: "dict_get locs' l = (if group_of l (ms @ [m]) = [] then None
                                 else Some (group_of l (ms @ [m])))" for l
    proof (cases "py_eq ?l0 l")
      case True
      with empty have "group_of l ms = []" using group_of_cong by metis
      with True show ?thesis by (simp add: locs' dict_get_append get group_of_snoc)
    next
      case False
      then show ?thesis
        by (simp add: locs' dict_get_append get group_of_snoc split: option.splits)
    qed
    have "key_norm ?l0 \<notin> (key_norm \<circ> fst) ` set locs"
      using None by (auto simp: dict_get_None_iff py_eq_def)
    with dist have 2: "distinct (map (key_norm \<circ> fst) locs')" by (simp add: locs')
    have "first_seen ?l0 (ms @ [m]) = length ms"
      using first_seen_new [OF empty] by simp
    with old srt' have 3: "sorted_wrt (\<lambda>a b. first_seen a (ms @ [m]) < first_seen b (ms @ [m]))
                            (map fst locs')"
      by (auto simp: locs' sorted_wrt_append)
    from 1 2 3 show ?thesis by (simp add: locales_inv_def)
  next
    case (Some g)
    with add have locs': "locs' = dict_modify (\<lambda>ms. ms @ [m]) ?l0 locs"
      by (auto simp: locales_add_def Let_def split: if_splits)
    have 1: "dict_get locs' l = (if group_of l (ms @ [m]) = [] then None
                                 else Some (group_of l (ms @ [m])))" for l
    proof (cases "py_eq ?l0 l")
      case True
      then have "dict_get locs l = Some g" using Some dict_get_cong by metis
      with True get [of l] show ?thesis
        by (auto simp: locs' dict_get_modify group_of_snoc split: if_splits)
    next
      case False
      then show ?thesis by (simp add: locs' dict_get_modify get group_of_snoc)
    qed
    have 2: "distinct (map (key_norm \<circ> fst) locs')"
      using dist keys_dict_modify [of _ ?l0 locs] unfolding locs' by (metis map_map)
    have 3: "sorted_wrt (\<lambda>a b. first_seen a (ms @ [m]) < first_seen b (ms @ [m])) (map fst locs')"
      using srt' by (simp add: locs')
    from 1 2 3 show ?thesis by (simp add: locales_inv_def)
  qed
qed

lemma locales_loop_inv:
  "locales_loop ms [] = Inr locs \<Longrightarrow> locales_inv ms locs"
proof (induction ms arbitrary: locs rule: rev_induct)
  case Nil
  then show ?case by (simp add: locales_inv_def group_of_def)
next
  case (snoc m ms)
  from snoc.prems obtain locs1 where
    1: "locales_loop ms [] = Inr locs1" and 2: "locales_add locs1 m = Inr locs"
    by (auto simp: locales_loop_append split: sum.splits)
  from locales_add_inv [OF snoc.IH [OF 1] 2] show ?case .
qed

lemma insort_key_lex:
  fixes f :: "'a \<Rightarrow> nat" and fs :: "'a \<Rightarrow> nat"
  assumes "sorted_wrt (\<lambda>a b. f a < f b \<or> (f a = f b \<and> fs a < fs b)) ys"
    and "\<forall>y \<in> set ys. fs x < fs y"
  shows "sorted_wrt (\<lambda>a b. f a < f b \<or> (f a = f b \<and> fs a < fs b)) (insort_key f x ys)"
  using assms
proof (induction ys)
  case Nil
  then show ?case by simp
next
  case (Cons y ys)
  show ?case
  proof (cases "f x \<le> f y")
    case True
    have "f x < f z \<or> (f x = f z \<and> fs x < fs z)" if "z \<in> set (y # ys)" for z
    proof -
      from Cons.prems(1) that have "f y \<le> f z" by auto
      with True Cons.prems(2) that show ?thesis by force
    qed
    with True Cons.prems(1) show ?thesis by simp
  next
    case False
    with Cons show ?thesis by (auto simp: set_insort_key)
  qed
qed

lemma sort_key_lex:
  fixes f :: "'a \<Rightarrow> nat" and fs :: "'a \<Rightarrow> nat"
  assumes "sorted_wrt (\<lambda>a b. fs a < fs b) xs"
  shows "sorted_wrt (\<lambda>a b. f a < f b \<or> (f a = f b \<and> fs a < fs b)) (sort_key f xs)"
  using assms by (induction xs) (auto intro: insort_key_lex)

lemma dd_get_group:
  assumes "locales_inv ms locs"
  shows "dd_get locs l = group_of l ms"
  using assms by (simp add: locales_inv_def dd_get_def)

lemma group_locales_Inr:
  assumes "group_locales ms limit = Inr out"
  shows "\<exists>locs j. locales_inv ms locs \<and> (0 \<le> limit \<longrightarrow> j \<le> nat limit) \<and>
           out = map (\<lambda>l. (l, group_of l ms))
                   (take j (rev (sort_key (\<lambda>l. length (group_of l ms)) (map fst locs))))"
proof -
  from assms obtain locs where loop: "locales_loop ms [] = Inr locs"
    by (auto simp: group_locales_def split: sum.splits)
  then have inv: "locales_inv ms locs" by (rule locales_loop_inv)
  have dd: "dd_get locs = (\<lambda>l. group_of l ms)"
    using dd_get_group [OF inv] by (intro ext)
  let ?S = "rev (sort_key (\<lambda>l. length (group_of l ms)) (map fst locs))"
  from assms loop have out: "out = map (\<lambda>l. (l, group_of l ms))
      (py_slice_to ?S (min limit (int (length ?S))))"
    by (simp add: group_locales_def dd Let_def)
  have "\<exists>j. (0 \<le> limit \<longrightarrow> j \<le> nat limit) \<and>
          py_slice_to ?S (min limit (int (length ?S))) = take j ?S"
  proof (cases "0 \<le> limit")
    case True
    then have "py_slice_to ?S (min limit (int (length ?S))) =
                 take (nat (min limit (int (length ?S)))) ?S"
      by (simp add: py_slice_to_def)
    moreover have "nat (min limit (int (length ?S))) \<le> nat limit" by simp
    ultimately show ?thesis by (intro exI [of _ "nat (min limit (int (length ?S)))"]) simp
  next
    case False
    with py_slice_to_take [of ?S "min limit (int (length ?S))"] show ?thesis by auto
  qed
  then obtain j where j: "0 \<le> limit \<longrightarrow> j \<le> nat limit"
    and sl: "py_slice_to ?S (min limit (int (length ?S))) = take j ?S" by (elim exE conjE)
  have "locales_inv ms locs \<and> (0 \<le> limit \<longrightarrow> j \<le> nat limit) \<and>
        out = map (\<lambda>l. (l, group_of l ms)) (take j ?S)"
    using inv j out unfolding sl by (intro conjI)
  then show ?thesis
    apply -
    apply (rule exI [of _ locs], rule exI [of _ j])
    apply assumption
    done
qed

text \<open>\<open>get_sorted_locales\<close> is the join, the filter with its defaults, and the grouping.\<close>

lemma get_sorted_locales_Inr:
  assumes "get_sorted_locales st query limit = Inr groups"
  shows "\<exists>joined museums.
           snd (get_museums_with_locales_and_exhibits st query) = Inr joined \<and>
           filter_relevant_museums joined (1 / 25) (4 / 5) = Inr museums \<and>
           group_locales museums limit = Inr groups"
  using assms by (auto simp: get_sorted_locales_def split: sum.splits)

text \<open>The grouping on the samples.\<close>

lemma two_city_groups:
  "group_locales [tie_m2, tie_m1] 7 = Inr [(JStr ''CityA'', [tie_m1]), (JStr ''CityB'', [tie_m2])]"
  by code_simp


section \<open>An empty join\<close>

text \<open>
  Claim C1. The specification asks that a query whose join yields no aggregate give an
  empty list of location groups and that the relevance filter return an empty sequence
  on an empty input. In the source the filter reads element 0 of the sorted list before
  anything else, so on an empty dictionary it raises \<open>IndexError\<close>, and
  \<open>get_sorted_locales\<close> raises with it.
\<close>

theorem empty_result_raises:
  assumes "snd (get_museums_with_locales_and_exhibits st query) = Inr []"
  shows "filter_relevant_museums [] border select = Inl IndexError \<and>
         get_sorted_locales st query limit = Inl IndexError"
  using assms by (simp add: get_sorted_locales_def filter_relevant_museums_def)

theorem empty_result_raises_witness:
  "snd (get_museums_with_locales_and_exhibits empty_store ''vase'') = Inr [] \<and>
   filter_relevant_museums [] (1 / 25) (4 / 5) = Inl IndexError \<and>
   get_sorted_locales empty_store ''vase'' 7 = Inl IndexError"
proof -
  have h: "snd (get_museums_with_locales_and_exhibits empty_store ''vase'') = Inr []"
    by (simp add: get_museums_with_locales_and_exhibits_def get_by_name_def empty_store_def)
  from empty_result_raises [OF h, of "1 / 25" "4 / 5" 7] h show ?thesis by simp
qed

section \<open>Museum lookups per identifier\<close>

text \<open>
  Claim C2, as the specification states it: within one run of the join a museum is looked
  up at most once per distinct identifier, so the number of lookups is at most the number
  of distinct identifiers among the valid exhibits. The join remembers only the
  identifiers for which it created an aggregate: an identifier whose lookup finds nothing
  is looked up again for every exhibit that names it. Two exhibits of the unknown museum 5
  cause two lookups for one identifier.
\<close>

theorem lookups_exceed_distinct_ids:
  "find_exhibits orphan_store ''amphora'' = Inr orphan_exhibits \<and>
   fst (get_museums_with_locales_and_exhibits orphan_store ''amphora'') = [JInt 5, JInt 5] \<and>
   remdups (map fst (valid_exhibits orphan_exhibits)) = [JInt 5] \<and>
   \<not> length (fst (get_museums_with_locales_and_exhibits orphan_store ''amphora''))
       \<le> length (remdups (map fst (valid_exhibits orphan_exhibits)))"
  by code_simp

text \<open>
  Claim C2, amended: an identifier that resolves is looked up at most once in a run,
  whether the run returns or raises; when the run returns, an identifier that does not
  resolve has been looked up once for each valid exhibit that names it; and the number of
  lookups is at most the number of valid exhibits.
\<close>

theorem lookups_once_per_resolved_id:
  assumes "find_exhibits st query = Inr es"
    and "get_museums_with_locales_and_exhibits st query = (lg, r)"
  shows "(resolved st k \<noteq> None \<longrightarrow> length (filter (py_eq k) lg) \<le> 1) \<and>
         (resolved st k = None \<and> r = Inr ms \<longrightarrow>
            length (filter (py_eq k) lg) = length (names_for k es)) \<and>
         length lg \<le> length (valid_exhibits es)"
proof -
  from assms have loop: "join_loop st es ([], []) = (lg, r)"
    by (simp add: get_museums_with_locales_and_exhibits_def get_by_name_def)
  from join_loop_bounds [OF loop]
  have a: "resolved st k \<noteq> None \<longrightarrow> length (filter (py_eq k) lg) \<le> 1"
    and c: "length lg \<le> length (valid_exhibits es)" by blast+
  have b: "length (filter (py_eq k) lg) = length (names_for k es)"
    if "resolved st k = None" and "r = Inr ms"
    using join_loop_inv [of st es lg ms] loop that by (simp add: join_inv_def lookups_for_def)
  from a b c show ?thesis by blast
qed

theorem lookups_once_per_resolved_id_witness:
  "find_exhibits scenario_store ''vase'' = Inr scenario_exhibits \<and>
   get_museums_with_locales_and_exhibits scenario_store ''vase'' =
     ([JInt 1, JInt 2],
      Inr [(JInt 1, \<lparr>m_name = JStr ''M1'', m_locale = JStr ''CityA'',
                      m_exhibits = [JStr ''Vase'', JStr ''Urn'']\<rparr>),
           (JInt 2, \<lparr>m_name = JStr ''M2'', m_locale = JStr ''CityA'',
                      m_exhibits = [JStr ''Coin'']\<rparr>)]) \<and>
   resolved scenario_store (JInt 1) \<noteq> None \<and>
   length (filter (py_eq (JInt 1)) [JInt 1, JInt 2]) \<le> 1 \<and>
   find_exhibits orphan_store ''amphora'' = Inr orphan_exhibits \<and>
   get_museums_with_locales_and_exhibits orphan_store ''amphora'' = ([JInt 5, JInt 5], Inr []) \<and>
   resolved orphan_store (JInt 5) = None \<and>
   length (filter (py_eq (JInt 5)) [JInt 5, JInt 5]) = length (names_for (JInt 5) orphan_exhibits) \<and>
   length [JInt 5, JInt 5] \<le> length (valid_exhibits orphan_exhibits)"
proof -
  have h1: "find_exhibits scenario_store ''vase'' = Inr scenario_exhibits"
    by (simp add: scenario_store_def)
  have h2: "find_exhibits orphan_store ''amphora'' = Inr orphan_exhibits"
    by (simp add: orphan_store_def)
  have r1: "resolved scenario_store (JInt 1) \<noteq> None" by code_simp
  have r2: "resolved orphan_store (JInt 5) = None" by code_simp
  from lookups_once_per_resolved_id [OF h1 scenario_run, of "JInt 1"] r1
  have a: "length (filter (py_eq (JInt 1)) [JInt 1, JInt 2]) \<le> 1" by blast
  from lookups_once_per_resolved_id [OF h2 orphan_run, of "JInt 5" "[]"] r2
  have b: "length (filter (py_eq (JInt 5)) [JInt 5, JInt 5]) =
             length (names_for (JInt 5) orphan_exhibits)"
    and c: "length [JInt 5, JInt 5] \<le> length (valid_exhibits orphan_exhibits)" by blast+
  from h1 h2 r1 r2 a b c scenario_run orphan_run show ?thesis by blast
qed

section \<open>Exhibits and museums with missing fields\<close>

text \<open>
  Claim C3, as the specification states it: an exhibit whose museum code or name is absent
  or null is skipped without an error. The join reads both fields by subscript, so an
  absent key raises \<open>KeyError\<close> and ends the run.
\<close>

theorem absent_code_raises:
  "get_museums_with_locales_and_exhibits no_code_store ''vase'' = ([], Inl KeyError)"
  by code_simp

text \<open>
  Claim C3, amended to the fields being present: an exhibit whose museum code and name
  are both present and one of them null is skipped, the run going on as if the exhibit
  were not in the search result; and a museum that is found with its display name and
  location name both present and one of them null is treated as not found, the run being
  the same as against a store that has no such museum.
\<close>

theorem null_fields_are_skipped:
  "(find_exhibits st query = Inr (pre @ e # post) \<and>
    py_path e [''data'', ''museum'', ''code''] = Inr c \<and>
    py_path e [''data'', ''name''] = Inr n \<and> (c = JNull \<or> n = JNull) \<longrightarrow>
      get_museums_with_locales_and_exhibits st query = join_loop st (pre @ post) ([], [])) \<and>
   (find_museum st i = Inr (Some m) \<and>
    py_path m [''data'', ''general'', ''locale'', ''name''] = Inr l \<and>
    py_path m [''data'', ''general'', ''name''] = Inr q \<and> (l = JNull \<or> q = JNull) \<longrightarrow>
      get_museums_with_locales_and_exhibits st query =
        get_museums_with_locales_and_exhibits
          (st\<lparr>find_museum := (find_museum st)(i := Inr None)\<rparr>) query)"
proof (intro conjI impI)
  assume a: "find_exhibits st query = Inr (pre @ e # post) \<and>
    py_path e [''data'', ''museum'', ''code''] = Inr c \<and>
    py_path e [''data'', ''name''] = Inr n \<and> (c = JNull \<or> n = JNull)"
  then have "join_step st e = (\<lambda>s. (fst s, Inr (snd s)))"
    using join_step_skip [of e c n st] by (intro ext) blast
  from join_loop_skip [OF this] a
  show "get_museums_with_locales_and_exhibits st query = join_loop st (pre @ post) ([], [])"
    by (simp add: get_museums_with_locales_and_exhibits_def get_by_name_def)
next
  assume a: "find_museum st i = Inr (Some m) \<and>
    py_path m [''data'', ''general'', ''locale'', ''name''] = Inr l \<and>
    py_path m [''data'', ''general'', ''name''] = Inr q \<and> (l = JNull \<or> q = JNull)"
  then have "join_step st e s = join_step (st\<lparr>find_museum := (find_museum st)(i := Inr None)\<rparr>) e s"
    for e s
    using join_step_incomplete [of st i m l q] by blast
  then have "join_loop st es s = join_loop (st\<lparr>find_museum := (find_museum st)(i := Inr None)\<rparr>) es s"
    for es s
    by (intro join_loop_store_cong)
  then show "get_museums_with_locales_and_exhibits st query =
        get_museums_with_locales_and_exhibits
          (st\<lparr>find_museum := (find_museum st)(i := Inr None)\<rparr>) query"
    by (simp add: get_museums_with_locales_and_exhibits_def get_by_name_def split: sum.splits)
qed

theorem null_fields_are_skipped_witness:
  "find_exhibits null_code_store ''vase'' =
     Inr ([exhibit_doc (JInt 1) (JStr ''Vase'')] @ exhibit_doc JNull (JStr ''Bowl'') #
          [exhibit_doc (JInt 2) (JStr ''Coin'')]) \<and>
   py_path (exhibit_doc JNull (JStr ''Bowl'')) [''data'', ''museum'', ''code''] = Inr JNull \<and>
   py_path (exhibit_doc JNull (JStr ''Bowl'')) [''data'', ''name''] = Inr (JStr ''Bowl'') \<and>
   get_museums_with_locales_and_exhibits null_code_store ''vase'' =
     join_loop null_code_store
       ([exhibit_doc (JInt 1) (JStr ''Vase'')] @ [exhibit_doc (JInt 2) (JStr ''Coin'')]) ([], []) \<and>
   find_museum null_locale_store 2 = Inr (Some (museum_doc (JStr ''M2'') JNull)) \<and>
   py_path (museum_doc (JStr ''M2'') JNull) [''data'', ''general'', ''locale'', ''name''] = Inr JNull \<and>
   py_path (museum_doc (JStr ''M2'') JNull) [''data'', ''general'', ''name''] = Inr (JStr ''M2'') \<and>
   get_museums_with_locales_and_exhibits null_locale_store ''vase'' =
     get_museums_with_locales_and_exhibits
       (null_locale_store\<lparr>find_museum := (find_museum null_locale_store)(2 := Inr None)\<rparr>) ''vase''"
proof -
  have a1: "find_exhibits null_code_store ''vase'' =
     Inr ([exhibit_doc (JInt 1) (JStr ''Vase'')] @ exhibit_doc JNull (JStr ''Bowl'') #
          [exhibit_doc (JInt 2) (JStr ''Coin'')])"
    by (simp add: null_code_store_def)
  have a2: "py_path (exhibit_doc JNull (JStr ''Bowl'')) [''data'', ''museum'', ''code''] = Inr JNull"
    by (simp add: exhibit_doc_def)
  have a3: "py_path (exhibit_doc JNull (JStr ''Bowl'')) [''data'', ''name''] = Inr (JStr ''Bowl'')"
    by (simp add: exhibit_doc_def)
  have b1: "find_museum null_locale_store 2 = Inr (Some (museum_doc (JStr ''M2'') JNull))"
    by (simp add: null_locale_store_def)
  have b2: "py_path (museum_doc (JStr ''M2'') JNull) [''data'', ''general'', ''locale'', ''name'']
              = Inr JNull"
    by (simp add: museum_doc_def)
  have b3: "py_path (museum_doc (JStr ''M2'') JNull) [''data'', ''general'', ''name'']
              = Inr (JStr ''M2'')"
    by (simp add: museum_doc_def)
  from null_fields_are_skipped
    [where st = null_code_store and query = "''vase''"
       and pre = "[exhibit_doc (JInt 1) (JStr ''Vase'')]"
       and e = "exhibit_doc JNull (JStr ''Bowl'')"
       and post = "[exhibit_doc (JInt 2) (JStr ''Coin'')]"
       and c = JNull and n = "JStr ''Bowl''"]
    a1 a2 a3
  have c1: "get_museums_with_locales_and_exhibits null_code_store ''vase'' =
     join_loop null_code_store
       ([exhibit_doc (JInt 1) (JStr ''Vase'')] @ [exhibit_doc (JInt 2) (JStr ''Coin'')]) ([], [])"
    by blast
  from null_fields_are_skipped
    [where st = null_locale_store and query = "''vase''" and i = 2
       and m = "museum_doc (JStr ''M2'') JNull" and l = JNull and q = "JStr ''M2''"]
    b1 b2 b3
  have c2: "get_museums_with_locales_and_exhibits null_locale_store ''vase'' =
     get_museums_with_locales_and_exhibits
       (null_locale_store\<lparr>find_museum := (find_museum null_locale_store)(2 := Inr None)\<rparr>) ''vase''"
    by blast
  from a1 a2 a3 b1 b2 b3 c1 c2 show ?thesis by blast
qed

section \<open>The order of aggregates with equal counts\<close>

text \<open>
  Claim C4, as the specification states it: the descending sort of the relevance filter
  is stable, so aggregates with equal exhibit counts leave the filter in the order in
  which they entered. The source sorts into ascending order and reverses the whole list,
  which also reverses every run of equal counts. Two museums with one exhibit each trade
  places.
\<close>

theorem equal_counts_change_places:
  "snd (get_museums_with_locales_and_exhibits tie_store ''vase'') =
     Inr [(JInt 1, tie_m1), (JInt 2, tie_m2)] \<and>
   n_exhibits tie_m1 = n_exhibits tie_m2 \<and> tie_m1 \<noteq> tie_m2 \<and>
   filter_relevant_museums [(JInt 1, tie_m1), (JInt 2, tie_m2)] (1 / 25) (4 / 5) =
     Inr [tie_m2, tie_m1]"
  by (simp add: tie_join tie_filter) (simp add: n_exhibits_def tie_m1_def tie_m2_def)

text \<open>
  Claim C4, amended: among the aggregates with one and the same exhibit count, the
  filter's output holds them in the reverse of their input order (an initial part of
  that reversed order, since the filter may cut the sequence short).
\<close>

theorem ties_come_out_reversed:
  assumes "filter_relevant_museums museums border select = Inr out"
  shows "prefix (filter (\<lambda>m. n_exhibits m = c) out)
                (rev (filter (\<lambda>m. n_exhibits m = c) (map snd museums)))"
proof -
  let ?desc = "rev (sort_key n_exhibits (map snd museums))"
  from filter_relevant_Inr [OF assms] obtain j m0 where
    out: "out = take j (filter (\<lambda>m. border \<le> of_nat (n_exhibits m) / of_nat (n_exhibits m0)) ?desc)"
    by blast
  let ?P = "\<lambda>m. border \<le> (of_nat (n_exhibits m) :: rat) / of_nat (n_exhibits m0)"
  let ?Q = "\<lambda>m. n_exhibits m = c"
  have "prefix (filter ?Q out) (filter ?Q (filter ?P ?desc))"
    unfolding out by (intro filter_mono_prefix take_is_prefix)
  also have "prefix (filter ?Q (filter ?P ?desc)) (filter ?Q ?desc)"
  proof (cases "border \<le> (of_nat c :: rat) / of_nat (n_exhibits m0)")
    case True
    then have "filter ?Q (filter ?P ?desc) = filter ?Q ?desc"
      by (auto intro: filter_cong)
    then show ?thesis by simp
  next
    case False
    then have "filter ?Q (filter ?P ?desc) = []"
      by (auto simp: filter_empty_conv)
    then show ?thesis by simp
  qed
  also have "filter ?Q ?desc = rev (filter ?Q (map snd museums))"
    by (rule filter_count_desc)
  finally show ?thesis .
qed

theorem ties_come_out_reversed_witness:
  "filter_relevant_museums [(JInt 1, tie_m1), (JInt 2, tie_m2)] (1 / 25) (4 / 5) =
     Inr [tie_m2, tie_m1] \<and>
   prefix (filter (\<lambda>m. n_exhibits m = 1) [tie_m2, tie_m1])
          (rev (filter (\<lambda>m. n_exhibits m = 1) [tie_m1, tie_m2])) \<and>
   filter (\<lambda>m. n_exhibits m = 1) [tie_m2, tie_m1] = [tie_m2, tie_m1]"
proof -
  from ties_come_out_reversed [OF tie_filter, of 1]
  have "prefix (filter (\<lambda>m. n_exhibits m = 1) [tie_m2, tie_m1])
          (rev (filter (\<lambda>m. n_exhibits m = 1) [tie_m1, tie_m2]))" by simp
  moreover have "filter (\<lambda>m. n_exhibits m = 1) [tie_m2, tie_m1] = [tie_m2, tie_m1]"
    by (simp add: n_exhibits_def tie_m1_def tie_m2_def)
  ultimately show ?thesis using tie_filter by blast
qed

section \<open>What the relevance filter returns\<close>



section \<open>Location groups\<close>




section \<open>The mapping the join returns\<close>

text \<open>
  Claim C7. When the join returns, its mapping has pairwise different keys; an identifier
  is a key exactly when it resolves and some valid exhibit names it; and the aggregate
  stored under a key carries the names of the valid exhibits of that identifier, in the
  order of the search result and at least one of them, together with the display name
  and the location the lookup gave.
\<close>

theorem join_one_entry_per_museum:
  assumes "find_exhibits st query = Inr es"
    and "get_museums_with_locales_and_exhibits st query = (lg, Inr museums)"
  shows "distinct (map (key_norm \<circ> fst) museums) \<and>
         ((dict_get museums k \<noteq> None) =
            (resolved st k \<noteq> None \<and> (\<exists>p \<in> set (valid_exhibits es). py_eq (fst p) k))) \<and>
         (\<forall>(k', a) \<in> set museums.
            m_exhibits a = names_for k' es \<and> m_exhibits a \<noteq> [] \<and>
            resolved st k' = Some (m_name a, m_locale a))"
proof -
  from assms have "join_loop st es ([], []) = (lg, Inr museums)"
    by (simp add: get_museums_with_locales_and_exhibits_def get_by_name_def)
  then have inv: "join_inv st es lg museums" by (rule join_loop_inv)
  then have get: "\<And>k. dict_get museums k = agg_for st es k"
    and dist: "distinct (map (key_norm \<circ> fst) museums)"
    by (simp_all add: join_inv_def)
  have 2: "(dict_get museums k \<noteq> None) =
            (resolved st k \<noteq> None \<and> (\<exists>p \<in> set (valid_exhibits es). py_eq (fst p) k))"
    unfolding get names_for_empty_iff [symmetric]
    by (auto simp: agg_for_def split: option.splits)
  have 3: "m_exhibits a = names_for k' es \<and> m_exhibits a \<noteq> [] \<and>
            resolved st k' = Some (m_name a, m_locale a)" if "(k', a) \<in> set museums" for k' a
  proof -
    from dict_get_member [OF dist that] get have "agg_for st es k' = Some a" by simp
    then show ?thesis by (auto simp: agg_for_def split: option.splits if_splits)
  qed
  from dist 2 3 show ?thesis by blast
qed

theorem join_one_entry_per_museum_witness:
  "find_exhibits scenario_store ''vase'' = Inr scenario_exhibits \<and>
   get_museums_with_locales_and_exhibits scenario_store ''vase'' =
     ([JInt 1, JInt 2],
      Inr [(JInt 1, \<lparr>m_name = JStr ''M1'', m_locale = JStr ''CityA'',
                      m_exhibits = [JStr ''Vase'', JStr ''Urn'']\<rparr>),
           (JInt 2, \<lparr>m_name = JStr ''M2'', m_locale = JStr ''CityA'',
                      m_exhibits = [JStr ''Coin'']\<rparr>)]) \<and>
   resolved scenario_store (JInt 1) \<noteq> None \<and>
   names_for (JInt 1) scenario_exhibits = [JStr ''Vase'', JStr ''Urn''] \<and>
   resolved scenario_store (JInt 2) = Some (JStr ''M2'', JStr ''CityA'')"
proof -
  have h1: "find_exhibits scenario_store ''vase'' = Inr scenario_exhibits"
    by (simp add: scenario_store_def)
  note h2 = scenario_run
  from join_one_entry_per_museum [OF h1 h2, of "JInt 1"]
  have "resolved scenario_store (JInt 1) \<noteq> None"
    and "[JStr ''Vase'', JStr ''Urn''] = names_for (JInt 1) scenario_exhibits"
    and "resolved scenario_store (JInt 2) = Some (JStr ''M2'', JStr ''CityA'')"
    by simp_all
  with h1 h2 show ?thesis by simp
qed

section \<open>Two runs against the same answers\<close>

text \<open>
  Claim C8. A run of the pipeline is a function of what the store answers: when two store
  states give the same search result for the query and the same answer to the lookup of
  every museum code of that result, the join makes the same lookups and returns the same
  mapping, and the pipeline returns the same location groups in the same order, or raises
  the same error.
\<close>

theorem pipeline_depends_on_store_answers:
  assumes "find_exhibits st query = find_exhibits st' query"
    and "\<And>es e c i. find_exhibits st query = Inr es \<Longrightarrow> e \<in> set es \<Longrightarrow>
           py_path e [''data'', ''museum'', ''code''] = Inr c \<Longrightarrow> py_int c = Inr i \<Longrightarrow>
           find_museum st i = find_museum st' i"
  shows "get_museums_with_locales_and_exhibits st query =
           get_museums_with_locales_and_exhibits st' query \<and>
         get_sorted_locales st query limit = get_sorted_locales st' query limit"
proof -
  have join: "get_museums_with_locales_and_exhibits st query =
           get_museums_with_locales_and_exhibits st' query"
  proof (cases "find_exhibits st query")
    case (Inl err)
    moreover from Inl assms(1) have "find_exhibits st' query = Inl err" by simp
    ultimately show ?thesis
      by (simp add: get_museums_with_locales_and_exhibits_def get_by_name_def)
  next
    case (Inr es)
    from Inr assms(1) have es': "find_exhibits st' query = Inr es" by simp
    have "join_step st e s = join_step st' e s" if "e \<in> set es" for e s
    proof (rule join_step_store_eq)
      fix c assume c: "py_path e [''data'', ''museum'', ''code''] = Inr c"
      show "get_by_id st c = get_by_id st' c"
        using assms(2) [OF Inr that c] by (auto simp: get_by_id_def split: sum.splits)
    qed
    then have "join_loop st es s = join_loop st' es s" for s
      by (intro join_loop_store_cong)
    with Inr es' show ?thesis
      by (simp add: get_museums_with_locales_and_exhibits_def get_by_name_def)
  qed
  then show ?thesis by (simp add: get_sorted_locales_def)
qed

theorem pipeline_depends_on_store_answers_witness:
  "find_exhibits scenario_store ''vase'' = find_exhibits other_store ''vase'' \<and>
   find_museum scenario_store 1 = find_museum other_store 1 \<and>
   find_museum scenario_store 2 = find_museum other_store 2 \<and>
   find_museum scenario_store 3 \<noteq> find_museum other_store 3 \<and>
   get_museums_with_locales_and_exhibits scenario_store ''vase'' =
     get_museums_with_locales_and_exhibits other_store ''vase'' \<and>
   get_sorted_locales scenario_store ''vase'' 7 = get_sorted_locales other_store ''vase'' 7"
proof -
  have h1: "find_exhibits scenario_store ''vase'' = find_exhibits other_store ''vase''"
    by (simp add: scenario_store_def other_store_def)
  have h2: "find_museum scenario_store i = find_museum other_store i"
    if "find_exhibits scenario_store ''vase'' = Inr es" and "e \<in> set es"
      and "py_path e [''data'', ''museum'', ''code''] = Inr c" and "py_int c = Inr i"
    for es e c i
  proof -
    from that(1) have "es = scenario_exhibits" by (simp add: scenario_store_def)
    with that(2) that(3) have "c = JInt 1 \<or> c = JInt 2"
      by (auto simp: scenario_exhibits_def exhibit_doc_def)
    with that(4) have "i = 1 \<or> i = 2" by auto
    then show ?thesis by (auto simp: scenario_store_def other_store_def)
  qed
  have d: "find_museum scenario_store 1 = find_museum other_store 1 \<and>
   find_museum scenario_store 2 = find_museum other_store 2 \<and>
   find_museum scenario_store 3 \<noteq> find_museum other_store 3"
    by (simp add: scenario_store_def other_store_def)
  from pipeline_depends_on_store_answers [of scenario_store "''vase''" other_store 7, OF h1 h2] h1 d
  show ?thesis by simp
qed

section \<open>Museum codes that are not numbers\<close>




section \<open>Locations with equally many museums\<close>

text \<open>
  Claim C10. Of two returned locations with the same number of museums, the one whose
  first museum comes later in the filtered sequence is returned first: the keys are sorted
  in their order of first appearance by a stable ascending sort, and then reversed.
\<close>

theorem equal_groups_in_reverse_first_seen_order:
  assumes "group_locales museums limit = Inr groups"
  shows "sorted_wrt (\<lambda>g h. length (snd g) = length (snd h) \<longrightarrow>
                      first_seen (fst h) museums < first_seen (fst g) museums) groups"
proof -
  from group_locales_Inr [OF assms] obtain locs j where
    inv: "locales_inv museums locs" and
    out: "groups = map (\<lambda>l. (l, group_of l museums))
            (take j (rev (sort_key (\<lambda>l. length (group_of l museums)) (map fst locs))))"
    by blast
  from inv have "sorted_wrt (\<lambda>a b. first_seen a museums < first_seen b museums) (map fst locs)"
    by (simp add: locales_inv_def)
  from sort_key_lex [OF this, of "\<lambda>l. length (group_of l museums)"]
  have "sorted_wrt (\<lambda>a b. length (group_of b museums) < length (group_of a museums) \<or>
          (length (group_of b museums) = length (group_of a museums) \<and>
           first_seen b museums < first_seen a museums))
        (rev (sort_key (\<lambda>l. length (group_of l museums)) (map fst locs)))"
    by (simp add: sorted_wrt_rev)
  then have "sorted_wrt (\<lambda>a b. length (group_of a museums) = length (group_of b museums) \<longrightarrow>
           first_seen b museums < first_seen a museums)
        (take j (rev (sort_key (\<lambda>l. length (group_of l museums)) (map fst locs))))"
    by (intro sorted_wrt_take) (auto elim!: sorted_wrt_mono_rel [rotated])
  then show ?thesis unfolding out sorted_wrt_map by simp
qed

theorem equal_groups_in_reverse_first_seen_order_witness:
  "get_sorted_locales tie_store ''vase'' 7 =
     Inr [(JStr ''CityA'', [tie_m1]), (JStr ''CityB'', [tie_m2])] \<and>
   group_locales [tie_m2, tie_m1] 7 =
     Inr [(JStr ''CityA'', [tie_m1]), (JStr ''CityB'', [tie_m2])] \<and>
   length [tie_m1] = length [tie_m2] \<and>
   first_seen (JStr ''CityB'') [tie_m2, tie_m1] < first_seen (JStr ''CityA'') [tie_m2, tie_m1]"
proof -
  have p: "get_sorted_locales tie_store ''vase'' 7 =
     Inr [(JStr ''CityA'', [tie_m1]), (JStr ''CityB'', [tie_m2])]"
    by code_simp
  from equal_groups_in_reverse_first_seen_order [OF two_city_groups]
  have "first_seen (JStr ''CityB'') [tie_m2, tie_m1] < first_seen (JStr ''CityA'') [tie_m2, tie_m1]"
    by simp
  with p two_city_groups show ?thesis by simp
qed

end
